theory Spec2Isabelle
  imports Main "HOL-Library.Word" "HOL-Library.Sublist"
begin

section \<open>Tag value codec (package tagencoding)\<close>

text \<open>
  The codec keeps a byte slice and two cursors. A Go \<open>[]byte\<close> is a list of 8-bit
  words; the nil slice and the empty slice are both the empty list (length 0, no
  content). The buffer is only ever nil or the result of \<open>make([]byte, n)\<close>, so its
  capacity equals its length. The cursors are Go \<open>int\<close>s: they are modelled as
  unbounded integers (a slice never has 2^61 elements, so the arithmetic on lengths
  cannot wrap), and every index or slice expression that Go checks at run time is a
  branch that returns the panic.

  The two unsafe casts reinterpret memory. The model fixes a little-endian target with
  a 64-bit \<open>int\<close> (amd64, arm64): the first two bytes of the \<open>int\<close> holding the length
  are its low 16 bits, least significant byte first, and a \<open>uint16\<close> is read back from
  two bytes in the same order.
\<close>

type_synonym byte = "8 word"

datatype panic =
    IndexOutOfRange
  | SliceBoundsOutOfRange
  | ReadOutsideSlice

record Values =
  Buffer :: "byte list"
  WriteIndex :: int
  ReadIndex :: int

definition sizeOfUint16 :: int where
  "sizeOfUint16 = 2"

text \<open>The zero value of the struct: what \<open>Values{}\<close> or \<open>new(Values)\<close> gives.\<close>

definition emptyValues :: Values where
  "emptyValues = \<lparr>Buffer = [], WriteIndex = 0, ReadIndex = 0\<rparr>"

text \<open>\<open>make([]byte, n)\<close>: n zero bytes.\<close>

definition make_bytes :: "int \<Rightarrow> byte list" where
  "make_bytes n = replicate (nat n) 0"

text \<open>
  Go's \<open>copy(dst, src)\<close> overwrites the first \<open>min(len(dst), len(src))\<close> elements of
  \<open>dst\<close>; the function returns the new content of \<open>dst\<close>.
\<close>

definition copy_go :: "'a list \<Rightarrow> 'a list \<Rightarrow> 'a list" where
  "copy_go dst src = take (length dst) src @ drop (length src) dst"

definition growIfRequired :: "Values \<Rightarrow> int \<Rightarrow> Values" where
  "growIfRequired vb expected =
     (if int (length (Buffer vb)) - WriteIndex vb < expected
      then vb\<lparr>Buffer := copy_go (make_bytes (2 * (int (length (Buffer vb)) + 1) + expected))
                                  (Buffer vb)\<rparr>
      else vb)"

text \<open>
  \<open>*(*[2]byte)(unsafe.Pointer(&length))\<close>: the first two bytes in memory of the
  integer \<open>length\<close>. Converting an integer to an 8-bit word keeps its low 8 bits.
\<close>

definition lengthBytes :: "int \<Rightarrow> byte \<times> byte" where
  "lengthBytes n = (word_of_int n, word_of_int (n div 256))"

text \<open>\<open>*(*uint16)(unsafe.Pointer(&b))\<close> where the two bytes at \<open>&b\<close> are \<open>b0\<close>, \<open>b1\<close>.\<close>

definition uint16At :: "byte \<Rightarrow> byte \<Rightarrow> int" where
  "uint16At b0 b1 = uint b0 + 256 * uint b1"

text \<open>\<open>vb.Buffer[i] = b\<close>, with Go's bounds check.\<close>

definition setByte :: "Values \<Rightarrow> int \<Rightarrow> byte \<Rightarrow> panic + Values" where
  "setByte vb i b =
     (if i < 0 \<or> int (length (Buffer vb)) \<le> i then Inl IndexOutOfRange
      else Inr (vb\<lparr>Buffer := (Buffer vb)[nat i := b]\<rparr>))"

definition WriteValue :: "Values \<Rightarrow> byte list \<Rightarrow> panic + Values" where
  "WriteValue vb0 v =
     (let length_v = int (length v);
          vb1 = growIfRequired vb0 (sizeOfUint16 + length_v);
          (b0, b1) = lengthBytes length_v
      in case setByte vb1 (WriteIndex vb1) b0 of
           Inl e \<Rightarrow> Inl e
         | Inr vb2 \<Rightarrow>
             (let vb3 = vb2\<lparr>WriteIndex := WriteIndex vb2 + 1\<rparr>
              in (case setByte vb3 (WriteIndex vb3) b1 of
                    Inl e \<Rightarrow> Inl e
                  | Inr vb4 \<Rightarrow>
                      (let vb5 = vb4\<lparr>WriteIndex := WriteIndex vb4 + 1\<rparr>
                       in if length_v = 0 then Inr vb5
                          else if WriteIndex vb5 < 0 \<or> int (length (Buffer vb5)) < WriteIndex vb5
                          then Inl SliceBoundsOutOfRange
                          else
                            (let w = nat (WriteIndex vb5);
                                 vb6 = vb5\<lparr>Buffer := take w (Buffer vb5)
                                                     @ copy_go (drop w (Buffer vb5)) v\<rparr>
                             in Inr (vb6\<lparr>WriteIndex := WriteIndex vb6 + length_v\<rparr>))))))"

text \<open>
  \<open>ReadValue\<close> takes the address of \<open>Buffer[ReadIndex]\<close> (bounds-checked) and reads two
  bytes there. When only one byte of the slice is left, the second byte lies outside
  the slice: Go defines no result, and the model returns \<open>ReadOutsideSlice\<close>.
\<close>

definition ReadValue :: "Values \<Rightarrow> panic + (byte list \<times> Values)" where
  "ReadValue vb0 =
     (if ReadIndex vb0 < 0 \<or> int (length (Buffer vb0)) \<le> ReadIndex vb0
      then Inl IndexOutOfRange
      else if int (length (Buffer vb0)) \<le> ReadIndex vb0 + 1 then Inl ReadOutsideSlice
      else
        let r = nat (ReadIndex vb0);
            length_v = uint16At (Buffer vb0 ! r) (Buffer vb0 ! (r + 1));
            vb1 = vb0\<lparr>ReadIndex := ReadIndex vb0 + sizeOfUint16\<rparr>
        in if length_v = 0 then Inr ([], vb1)
           else
             let endIdx = ReadIndex vb1 + length_v
             in if int (length (Buffer vb1)) < endIdx then Inl SliceBoundsOutOfRange
                else
                  let v = copy_go (make_bytes length_v)
                            (take (nat endIdx - nat (ReadIndex vb1))
                               (drop (nat (ReadIndex vb1)) (Buffer vb1)))
                  in Inr (v, vb1\<lparr>ReadIndex := endIdx\<rparr>))"

text \<open>\<open>vb.Buffer[:vb.WriteIndex]\<close>, with Go's check of the slice bounds.\<close>

definition Bytes :: "Values \<Rightarrow> panic + byte list" where
  "Bytes vb =
     (if WriteIndex vb < 0 \<or> int (length (Buffer vb)) < WriteIndex vb
      then Inl SliceBoundsOutOfRange
      else Inr (take (nat (WriteIndex vb)) (Buffer vb)))"

text \<open>
  A caller's loop of writes, and of reads: the calls are made one after the other on
  the same buffer, and the first panic ends the run.
\<close>

fun WriteValues :: "Values \<Rightarrow> byte list list \<Rightarrow> panic + Values" where
  "WriteValues vb [] = Inr vb"
| "WriteValues vb (v # vs) =
     (case WriteValue vb v of Inl e \<Rightarrow> Inl e | Inr vb' \<Rightarrow> WriteValues vb' vs)"

fun ReadValues :: "nat \<Rightarrow> Values \<Rightarrow> panic + (byte list list \<times> Values)" where
  "ReadValues 0 vb = Inr ([], vb)"
| "ReadValues (Suc n) vb =
     (case ReadValue vb of
        Inl e \<Rightarrow> Inl e
      | Inr (v, vb') \<Rightarrow>
          (case ReadValues n vb' of
             Inl e \<Rightarrow> Inl e
           | Inr (vs, vb'') \<Rightarrow> Inr (v # vs, vb'')))"

text \<open>
  The encoding of one value in the words of the specification: a 2-byte length
  prefix, low byte first, holding the low 16 bits of the length, then the payload.
\<close>

definition encodeValue :: "byte list \<Rightarrow> byte list" where
  "encodeValue v =
     [of_nat (length v mod 65536 mod 256), of_nat (length v mod 65536 div 256)] @ v"

definition encodeAll :: "byte list list \<Rightarrow> byte list" where
  "encodeAll vs = concat (map encodeValue vs)"

text \<open>The invariant of the data model on the write cursor.\<close>

definition writeInv :: "Values \<Rightarrow> bool" where
  "writeInv vb \<longleftrightarrow> 0 \<le> WriteIndex vb \<and> WriteIndex vb \<le> int (length (Buffer vb))"

text \<open>
  The state that one \<open>WriteValue\<close> leaves behind when the write cursor is inside the
  buffer, in closed form; \<open>WriteValue_eq\<close> below proves that the code computes it.
\<close>

definition written :: "Values \<Rightarrow> byte list \<Rightarrow> Values" where
  "written vb v =
     (let B1 = Buffer (growIfRequired vb (2 + int (length v))); w = nat (WriteIndex vb)
      in \<lparr>Buffer = take w B1 @ encodeValue v @ drop (w + 2 + length v) B1,
          WriteIndex = WriteIndex vb + 2 + int (length v),
          ReadIndex = ReadIndex vb\<rparr>)"

text \<open>
  Writes and reads in any order on one buffer. The operations are well formed when
  every value written fits the 16-bit prefix and no read is made without an unread
  value before it; the first argument of \<open>wellFormed\<close> counts the values written and
  not yet read.
\<close>

datatype codecOp =
    Write "byte list"
  | Read

fun runOps :: "Values \<Rightarrow> codecOp list \<Rightarrow> panic + Values" where
  "runOps vb [] = Inr vb"
| "runOps vb (Write v # ops) =
     (case WriteValue vb v of Inl e \<Rightarrow> Inl e | Inr vb' \<Rightarrow> runOps vb' ops)"
| "runOps vb (Read # ops) =
     (case ReadValue vb of Inl e \<Rightarrow> Inl e | Inr (v, vb') \<Rightarrow> runOps vb' ops)"

fun wellFormed :: "nat \<Rightarrow> codecOp list \<Rightarrow> bool" where
  "wellFormed unread [] = True"
| "wellFormed unread (Write v # ops) = (length v \<le> 65535 \<and> wellFormed (Suc unread) ops)"
| "wellFormed unread (Read # ops) = (0 < unread \<and> wellFormed (unread - 1) ops)"

text \<open>
  The second condition alone: no read is made without an unread value before it,
  whatever the lengths of the values.
\<close>

fun readsFollowWrites :: "nat \<Rightarrow> codecOp list \<Rightarrow> bool" where
  "readsFollowWrites unread [] = True"
| "readsFollowWrites unread (Write v # ops) = readsFollowWrites (Suc unread) ops"
| "readsFollowWrites unread (Read # ops) = (0 < unread \<and> readsFollowWrites (unread - 1) ops)"

text \<open>
  A value of 65536 bytes, one more than the prefix can express, whose first two
  bytes read as the length 65535.
\<close>

definition bigValue :: "byte list" where
  "bigValue = [255, 255] @ replicate 65534 0"

text \<open>
  What holds of a buffer into which the values \<open>vs\<close> were written and from which the
  first \<open>k\<close> of them were read.
\<close>

definition codecInv :: "Values \<Rightarrow> byte list list \<Rightarrow> nat \<Rightarrow> bool" where
  "codecInv vb vs k \<longleftrightarrow>
     writeInv vb \<and> WriteIndex vb = int (length (encodeAll vs)) \<and>
     take (length (encodeAll vs)) (Buffer vb) = encodeAll vs \<and> k \<le> length vs \<and>
     ReadIndex vb = int (length (encodeAll (take k vs))) \<and>
     list_all (\<lambda>v. length v \<le> 65535) vs"

section \<open>Stackdriver trace exporter (package stackdriver)\<close>

text \<open>
  The exporter's integers come from the caller's configuration, so they keep their
  width: a Go \<open>int\<close> is a 64-bit word (64-bit target), \<open>*\<close> and \<open>+\<close> wrap, and the
  comparisons of the source are signed (\<open>sint\<close>). \<open>time.Duration\<close> is an \<open>int64\<close>
  counting nanoseconds. \<open>len\<close> returns an \<open>int\<close>.
\<close>

type_synonym go_int = "64 word"
type_synonym Duration = "64 word"

definition Second :: Duration where
  "Second = 1000000000"

definition go_len :: "'a list \<Rightarrow> go_int" where
  "go_len xs = of_nat (length xs)"

text \<open>
  Modelled from the spec: the declaration of \<open>trace.SpanData\<close> is not among the
  sources. Section 3 of the specification gives a span record attributes,
  annotations, message events and stack-trace entries, whose counts make up its
  weight; \<open>Export\<close> reads exactly these four fields. The attribute map is the list of
  its entries, one per key, so that \<open>len\<close> counts them.
\<close>

record SpanData =
  Name :: string
  Attributes :: "(string \<times> string) list"
  Annotations :: "string list"
  MessageEvents :: "nat list"
  StackTrace :: "nat list"

text \<open>
  \<open>bundler.Bundler\<close> belongs to an external library. The record has the five
  configuration fields that \<open>newExporter\<close> assigns, and the records the bundler
  holds with their total size, which the model of \<open>Add\<close> below uses.
\<close>

record Bundler =
  DelayThreshold :: Duration
  BundleCountThreshold :: go_int
  BundleByteThreshold :: go_int
  BundleByteLimit :: go_int
  BufferedByteLimit :: go_int
  items :: "(SpanData \<times> go_int) list"
  bufferedSize :: go_int

text \<open>\<open>Options\<close>; the client options are handed to the client only and are left out.\<close>

record Options =
  ProjectID :: string
  BundleDelayThreshold :: Duration
  BundleCountThreshold :: go_int

text \<open>
  \<open>overflowLogger\<close>. The mutex is not a field of the model: \<open>log\<close> and the timer
  callback hold it from their first to their last statement, so each of them is one
  atomic step. \<open>accum\<close> counts calls; it is an unbounded integer, since no run makes
  2^63 of them.
\<close>

record overflowLogger =
  pause :: bool
  accum :: int

text \<open>
  \<open>Exporter\<close>. \<open>uploadFn\<close> and \<open>client\<close> are a function value and a handle: what the
  exporter does with them is an effect below.
\<close>

record Exporter =
  projectID :: string
  bundler :: Bundler
  overflowLogger :: overflowLogger

text \<open>
  What the code does to the outside world: a line handed to package \<open>log\<close> (the
  message, without the logger's date prefix), a call of \<open>time.AfterFunc\<close> with the
  overflow logger's callback, and a \<open>go e.uploadFn(spans)\<close> statement.
\<close>

datatype effect =
    Log string
  | AfterFunc Duration
  | Go_uploadFn "SpanData list"

text \<open>The verb \<open>%d\<close> of \<open>log.Printf\<close>: an integer in decimal.\<close>

fun showNat :: "nat \<Rightarrow> string" where
  "showNat n =
     (if n < 10 then [''0123456789'' ! n]
      else showNat (n div 10) @ [''0123456789'' ! (n mod 10)])"

definition showInt :: "int \<Rightarrow> string" where
  "showInt i = (if i < 0 then ''-'' @ showNat (nat (- i)) else showNat (nat i))"


text \<open>\<open>overflowLogger.delay\<close>: sets \<open>pause\<close> and arms the timer.\<close>

definition overflowLogger_delay :: "overflowLogger \<Rightarrow> overflowLogger \<times> effect list" where
  "overflowLogger_delay ol = (ol\<lparr>pause := True\<rparr>, [AfterFunc (5 * Second)])"

text \<open>The function that \<open>delay\<close> hands to \<open>time.AfterFunc\<close>, run when the timer fires.\<close>

definition overflowLogger_delay_callback :: "overflowLogger \<Rightarrow> overflowLogger \<times> effect list" where
  "overflowLogger_delay_callback ol =
     (if accum ol = 0 then (ol\<lparr>pause := False\<rparr>, [])
      else if accum ol = 1 then
        (let (ol', fx) = overflowLogger_delay (ol\<lparr>accum := 0\<rparr>)
         in (ol', Log ''OpenCensus Stackdriver exporter: failed to upload span: buffer full'' # fx))
      else
        (let (ol', fx) = overflowLogger_delay (ol\<lparr>accum := 0\<rparr>)
         in (ol', Log (''OpenCensus Stackdriver exporter: failed to upload ''
                        @ showInt (accum ol) @ '' spans: buffer full'') # fx)))"

text \<open>\<open>overflowLogger.log\<close>.\<close>

definition overflowLogger_log :: "overflowLogger \<Rightarrow> overflowLogger \<times> effect list" where
  "overflowLogger_log ol =
     (if \<not> pause ol then
        (let (ol', fx) = overflowLogger_delay ol
         in (ol', Log ''OpenCensus Stackdriver exporter: failed to upload span: buffer full'' # fx))
      else (ol\<lparr>accum := accum ol + 1\<rparr>, []))"

text \<open>
  The errors of \<open>bundler.Add\<close> that \<open>Export\<close> tells apart, and any other error with
  its message.
\<close>

datatype addError =
    ErrOversizedItem
  | ErrOverflow
  | ErrOther string

text \<open>
  \<open>Exporter.Export\<close>. The first argument stands for \<open>bundler.Add\<close>: it takes the
  bundler, the item and its size, and returns the error (\<open>None\<close> for nil) and the
  bundler as \<open>Add\<close> leaves it. The Go method has no result and the model has no error
  component: the function returns the exporter and the effects of the call.
\<close>

definition Export ::
  "(Bundler \<Rightarrow> SpanData \<Rightarrow> go_int \<Rightarrow> addError option \<times> Bundler)
     \<Rightarrow> Exporter \<Rightarrow> SpanData \<Rightarrow> Exporter \<times> effect list" where
  "Export add e s =
     (let n = 1;
          n = n + go_len (Attributes s);
          n = n + go_len (Annotations s);
          n = n + go_len (MessageEvents s);
          n = n + go_len (StackTrace s);
          (err, b) = add (bundler e) s n;
          e = e\<lparr>bundler := b\<rparr>
      in case err of
           None \<Rightarrow> (e, [])
         | Some ErrOversizedItem \<Rightarrow> (e, [Go_uploadFn [s]])
         | Some ErrOverflow \<Rightarrow>
             (let (ol, fx) = overflowLogger_log (overflowLogger e)
              in (e\<lparr>overflowLogger := ol\<rparr>, fx))
         | Some (ErrOther msg) \<Rightarrow>
             (e, [Log (''OpenCensus Stackdriver exporter: failed to upload span: '' @ msg)]))"

text \<open>
  Modelled from the spec: \<open>bundler.Add\<close>, whose package
  (google.golang.org/api/support/bundler) is not among the sources. Section 4.1: an
  item is oversized when its weight alone exceeds the hard per-batch limit; it
  overflows when accepting it would exceed the buffered-weight ceiling; otherwise it
  is accepted into the buffer. A refused item leaves the bundler as it was. When and
  how the buffer is flushed is outside the model.
\<close>

definition bundlerAdd :: "Bundler \<Rightarrow> SpanData \<Rightarrow> go_int \<Rightarrow> addError option \<times> Bundler" where
  "bundlerAdd b item size_item =
     (if sint (BundleByteLimit b) < sint size_item then (Some ErrOversizedItem, b)
      else if sint (BufferedByteLimit b) < sint (bufferedSize b) + sint size_item
      then (Some ErrOverflow, b)
      else (None, b\<lparr>items := items b @ [(item, size_item)],
                     bufferedSize := bufferedSize b + size_item\<rparr>))"

text \<open>The weight of a span record in the words of the specification.\<close>

definition weight :: "SpanData \<Rightarrow> nat" where
  "weight s = 1 + length (Attributes s) + length (Annotations s)
                + length (MessageEvents s) + length (StackTrace s)"

subsection \<open>The overflow logger in time\<close>

text \<open>
  The logger runs against a clock and the timers of package \<open>time\<close>. Times are
  nanoseconds. A timer armed at time t with duration d is due at t + d and fires
  once, at its due time or later. An event is a call of \<open>log\<close> (a dropped span) or
  the firing of a due timer, with the time at which it takes the mutex; time does
  not run backwards. \<open>step\<close> returns \<open>None\<close> for an event that cannot happen:
  a time in the past, or a firing when no timer is due.
\<close>

record env =
  logger :: overflowLogger
  clock :: nat
  armed :: "nat list"
  logged :: "(nat \<times> string) list"

datatype event =
    Drop nat
  | TimerFires nat

fun perform :: "nat \<Rightarrow> effect list \<Rightarrow> env \<Rightarrow> env" where
  "perform t [] w = w"
| "perform t (Log m # fx) w = perform t fx (w\<lparr>logged := logged w @ [(t, m)]\<rparr>)"
| "perform t (AfterFunc d # fx) w = perform t fx (w\<lparr>armed := armed w @ [t + nat (sint d)]\<rparr>)"
| "perform t (Go_uploadFn spans # fx) w = perform t fx w"

text \<open>The first timer that is due at time t leaves the list of armed timers.\<close>

fun fireDue :: "nat \<Rightarrow> nat list \<Rightarrow> nat list option" where
  "fireDue t [] = None"
| "fireDue t (d # ds) =
     (if d \<le> t then Some ds else map_option ((#) d) (fireDue t ds))"

fun step :: "env \<Rightarrow> event \<Rightarrow> env option" where
  "step w (Drop t) =
     (if t < clock w then None
      else (let (ol, fx) = overflowLogger_log (logger w)
            in Some (perform t fx (w\<lparr>logger := ol, clock := t\<rparr>))))"
| "step w (TimerFires t) =
     (if t < clock w then None
      else (case fireDue t (armed w) of
              None \<Rightarrow> None
            | Some ds \<Rightarrow>
                (let (ol, fx) = overflowLogger_delay_callback (logger w)
                 in Some (perform t fx (w\<lparr>logger := ol, clock := t, armed := ds\<rparr>)))))"

fun run :: "env \<Rightarrow> event list \<Rightarrow> env option" where
  "run w [] = Some w"
| "run w (ev # evs) = (case step w ev of None \<Rightarrow> None | Some w' \<Rightarrow> run w' evs)"

text \<open>A new exporter's logger, not paused and with no drops, at time 0.\<close>

definition env0 :: env where
  "env0 = \<lparr>logger = \<lparr>pause = False, accum = 0\<rparr>, clock = 0, armed = [], logged = []\<rparr>"

text \<open>The quiet window, in nanoseconds.\<close>

definition quietWindow :: nat where
  "quietWindow = 5000000000"

text \<open>The invariant that the runs of the logger keep.\<close>

definition loggerInv :: "env \<Rightarrow> bool" where
  "loggerInv w \<longleftrightarrow>
     sorted_wrt (\<lambda>t u. t + quietWindow \<le> u) (map fst (logged w)) \<and>
     (if pause (logger w)
      then (case armed w of
              [d] \<Rightarrow> list_all (\<lambda>t. t + quietWindow \<le> d) (map fst (logged w))
            | _ \<Rightarrow> False)
      else armed w = [] \<and> list_all (\<lambda>t. t + quietWindow \<le> clock w) (map fst (logged w)))"

text \<open>A span record with the given annotations and an exporter with small limits, as examples.\<close>

definition exampleSpan :: "string list \<Rightarrow> SpanData" where
  "exampleSpan anns = \<lparr>Name = ''s'', Attributes = [], Annotations = anns,
                        MessageEvents = [], StackTrace = []\<rparr>"

definition exampleExporter :: Exporter where
  "exampleExporter =
     \<lparr>projectID = ''p'',
      bundler = \<lparr>DelayThreshold = 2000000000, BundleCountThreshold = 1,
                 BundleByteThreshold = 2, BundleByteLimit = 5, BufferedByteLimit = 10,
                 items = [], bufferedSize = 9\<rparr>,
      overflowLogger = \<lparr>pause = False, accum = 0\<rparr>\<rparr>"


section \<open>Properties of the codec\<close>

lemma byte_of_nat_mod: "(of_nat (n mod 256) :: byte) = of_nat n"
  by (simp add: word_of_nat_eq_iff take_bit_eq_mod)

lemma mod_65536_div_256: "n mod 65536 div 256 = n div 256 mod (256::nat)"
proof -
  have "n mod 65536 = 256 * (n div 256 mod 256) + n mod 256"
    using mod_mult2_eq [of n 256 256] by simp
  then show ?thesis by simp
qed

lemma lengthBytes_encode:
  "lengthBytes (int n) = (of_nat (n mod 65536 mod 256), of_nat (n mod 65536 div 256))"
proof -
  have a: "n mod 65536 mod 256 = n mod 256"
    by (simp add: mod_mod_cancel)
  have "int n div 256 = int (n div 256)"
    by (simp add: zdiv_int)
  then have b: "(word_of_int (int n div 256) :: byte) = of_nat (n div 256)"
    by simp
  show ?thesis
    by (simp add: lengthBytes_def a b mod_65536_div_256 byte_of_nat_mod)
qed

lemma uint16At_encode:
  assumes "n < 65536"
  shows "uint16At (of_nat (n mod 65536 mod 256)) (of_nat (n mod 65536 div 256)) = int n"
proof -
  have d: "n div 256 < 256" using assms by simp
  have "uint (of_nat (n mod 256) :: byte) = int (n mod 256)"
    by (simp add: uint_nat unat_of_nat take_bit_eq_mod)
  moreover have "uint (of_nat (n div 256) :: byte) = int (n div 256)"
    using d by (simp add: uint_nat unat_of_nat take_bit_eq_mod)
  moreover have "int (n mod 256) + 256 * int (n div 256) = int n"
  proof -
    have "int (n mod 256 + 256 * (n div 256)) = int n"
      by (simp only: mod_mult_div_eq)
    then show ?thesis
      by (simp only: of_nat_add of_nat_mult of_nat_numeral)
  qed
  ultimately show ?thesis using assms
    by (simp add: uint16At_def mod_mod_cancel)
qed

lemma length_copy_go [simp]: "length (copy_go dst src) = length dst"
  by (simp add: copy_go_def)

lemma length_make_bytes [simp]: "length (make_bytes n) = nat n"
  by (simp add: make_bytes_def)

lemma growIfRequired_props:
  assumes "writeInv vb" "0 \<le> e"
  shows "WriteIndex (growIfRequired vb e) = WriteIndex vb"
    and "ReadIndex (growIfRequired vb e) = ReadIndex vb"
    and "e \<le> int (length (Buffer (growIfRequired vb e))) - WriteIndex vb"
    and "take (nat (WriteIndex vb)) (Buffer (growIfRequired vb e)) = take (nat (WriteIndex vb)) (Buffer vb)"
  using assms by (auto simp: growIfRequired_def writeInv_def copy_go_def)

lemma write_prefix:
  assumes "w + 2 + length v \<le> length B"
  shows "take (w + 2) (B[w := b0, Suc w := b1]) @ copy_go (drop (w + 2) (B[w := b0, Suc w := b1])) v
         = take w B @ [b0, b1] @ v @ drop (w + 2 + length v) B"
proof -
  obtain P R where B: "B = P @ R" and P: "length P = w"
    using assms by (metis add_leE append_take_drop_id length_take min.absorb2)
  then obtain x y R' where R: "R = x # y # R'"
    using assms by (cases R; cases "tl R") auto
  show ?thesis using assms
    by (simp add: B R P[symmetric] copy_go_def list_update_append)
qed

lemma write_prefix_nil:
  assumes "w + 2 \<le> length B"
  shows "B[w := b0, Suc w := b1] = take w B @ [b0, b1] @ drop (w + 2) B"
proof -
  obtain P R where B: "B = P @ R" and P: "length P = w"
    using assms by (metis add_leE append_take_drop_id length_take min.absorb2)
  then obtain x y R' where R: "R = x # y # R'"
    using assms by (cases R; cases "tl R") auto
  show ?thesis using assms
    by (simp add: B R P[symmetric] list_update_append)
qed

lemma WriteValue_body:
  assumes "growIfRequired vb (2 + int (length v)) = \<lparr>Buffer = B1, WriteIndex = int w, ReadIndex = r\<rparr>"
    and "w + 2 + length v \<le> length B1"
  shows "WriteValue vb v =
         Inr \<lparr>Buffer = take w B1 @ encodeValue v @ drop (w + 2 + length v) B1,
              WriteIndex = int w + 2 + int (length v), ReadIndex = r\<rparr>"
proof -
  have n1: "nat (int w + 1) = Suc w" "nat (int w + 1 + 1) = w + 2"
    "nat (2 + int w) = Suc (Suc w)" by simp_all
  obtain b0 b1 where lb: "lengthBytes (int (length v)) = (b0, b1)"
    by (cases "lengthBytes (int (length v))")
  have enc: "encodeValue v = [b0, b1] @ v"
    using lb by (simp add: lengthBytes_encode encodeValue_def)
  show ?thesis
    using assms lb write_prefix_nil [of w B1 b0 b1] write_prefix [of w v B1 b0 b1]
    by (simp add: WriteValue_def sizeOfUint16_def setByte_def Let_def n1 enc)
qed

lemma WriteValue_eq:
  assumes inv: "writeInv vb"
  shows "WriteValue vb v = Inr (written vb v)"
proof -
  define vb1 where "vb1 = growIfRequired vb (2 + int (length v))"
  define w where "w = nat (WriteIndex vb)"
  have w: "WriteIndex vb = int w" using inv by (simp add: w_def writeInv_def)
  have g: "WriteIndex vb1 = int w" "ReadIndex vb1 = ReadIndex vb"
    "w + 2 + length v \<le> length (Buffer vb1)"
    using growIfRequired_props [OF inv, of "2 + int (length v)"] w
    by (simp_all add: vb1_def)
  have vb1: "vb1 = \<lparr>Buffer = Buffer vb1, WriteIndex = int w, ReadIndex = ReadIndex vb\<rparr>"
    using g by simp
  show ?thesis
    using WriteValue_body [OF vb1 [unfolded vb1_def] g(3) [unfolded vb1_def]]
    by (simp add: written_def Let_def w)
qed

lemma length_encodeValue [simp]: "length (encodeValue v) = 2 + length v"
  by (simp add: encodeValue_def)

lemma written_props:
  assumes inv: "writeInv vb"
  shows "writeInv (written vb v)"
    and "WriteIndex (written vb v) = WriteIndex vb + 2 + int (length v)"
    and "ReadIndex (written vb v) = ReadIndex vb"
    and "take (nat (WriteIndex (written vb v))) (Buffer (written vb v))
         = take (nat (WriteIndex vb)) (Buffer vb) @ encodeValue v"
proof -
  define w where "w = nat (WriteIndex vb)"
  define B1 where "B1 = Buffer (growIfRequired vb (2 + int (length v)))"
  have w: "WriteIndex vb = int w" using inv by (simp add: w_def writeInv_def)
  have g: "w + 2 + length v \<le> length B1" "take w B1 = take w (Buffer vb)"
    using growIfRequired_props [OF inv, of "2 + int (length v)"] w
    by (simp_all add: B1_def)
  have wl: "w \<le> length (Buffer vb)" using inv w by (simp add: writeInv_def)
  have n: "nat (int w + 2 + int (length v)) = w + 2 + length v" by simp
  show "writeInv (written vb v)"
    using g(1) by (simp add: written_def Let_def writeInv_def w flip: B1_def) 
  show "WriteIndex (written vb v) = WriteIndex vb + 2 + int (length v)"
    by (simp add: written_def Let_def)
  show "ReadIndex (written vb v) = ReadIndex vb"
    by (simp add: written_def Let_def)
  have "take (w + 2 + length v) (take w B1 @ encodeValue v @ drop (w + 2 + length v) B1)
        = take w B1 @ encodeValue v"
    using g(1) by simp
  then show "take (nat (WriteIndex (written vb v))) (Buffer (written vb v))
         = take (nat (WriteIndex vb)) (Buffer vb) @ encodeValue v"
    using g(2) by (simp add: written_def Let_def w n flip: B1_def)
qed

lemma WriteValues_ok:
  assumes "writeInv vb"
  shows "\<exists>vb'. WriteValues vb vs = Inr vb' \<and> writeInv vb'
           \<and> WriteIndex vb' = WriteIndex vb + int (length (encodeAll vs))
           \<and> ReadIndex vb' = ReadIndex vb
           \<and> take (nat (WriteIndex vb')) (Buffer vb')
               = take (nat (WriteIndex vb)) (Buffer vb) @ encodeAll vs"
  using assms
proof (induction vs arbitrary: vb)
  case Nil
  then show ?case by (simp add: encodeAll_def)
next
  case (Cons v vs)
  note p = written_props [OF Cons.prems, of v]
  from Cons.IH [OF p(1)] obtain vb' where
    "WriteValues (written vb v) vs = Inr vb'" "writeInv vb'"
    "WriteIndex vb' = WriteIndex (written vb v) + int (length (encodeAll vs))"
    "ReadIndex vb' = ReadIndex (written vb v)"
    "take (nat (WriteIndex vb')) (Buffer vb')
       = take (nat (WriteIndex (written vb v))) (Buffer (written vb v)) @ encodeAll vs"
    by blast
  then show ?case
    using p by (simp add: WriteValue_eq [OF Cons.prems] encodeAll_def)
qed

lemma writeInv_empty: "writeInv emptyValues"
  by (simp add: writeInv_def emptyValues_def)

lemma ReadValue_encoded:
  assumes B: "Buffer vb = pre @ encodeValue v @ rest"
    and r: "ReadIndex vb = int (length pre)"
    and n: "length v \<le> 65535"
  shows "ReadValue vb = Inr (v, vb\<lparr>ReadIndex := int (length pre) + 2 + int (length v)\<rparr>)"
proof -
  define b0 :: byte where "b0 = of_nat (length v mod 65536 mod 256)"
  define b1 :: byte where "b1 = of_nat (length v mod 65536 div 256)"
  have B': "Buffer vb = pre @ b0 # b1 # v @ rest"
    using B by (simp add: encodeValue_def b0_def b1_def)
  have u: "uint16At b0 b1 = int (length v)"
    using n uint16At_encode [of "length v"] by (simp add: b0_def b1_def)
  have n2: "nat (int (length pre) + 2) = length pre + 2"
    "nat (int (length pre) + 2 + int (length v)) = length pre + 2 + length v" by simp_all
  show ?thesis
    using u
    by (simp add: ReadValue_def r B' sizeOfUint16_def Let_def nth_append n2 copy_go_def make_bytes_def)
qed

lemma ReadValues_encoded:
  assumes "Buffer vb = pre @ encodeAll vs @ rest"
    and "ReadIndex vb = int (length pre)"
    and "\<forall>v\<in>set vs. length v \<le> 65535"
  shows "ReadValues (length vs) vb
         = Inr (vs, vb\<lparr>ReadIndex := int (length pre) + int (length (encodeAll vs))\<rparr>)"
  using assms
proof (induction vs arbitrary: vb pre)
  case Nil
  then show ?case by (simp add: encodeAll_def)
next
  case (Cons v vs)
  let ?vb' = "vb\<lparr>ReadIndex := int (length pre) + 2 + int (length v)\<rparr>"
  have B: "Buffer vb = pre @ encodeValue v @ (encodeAll vs @ rest)"
    using Cons.prems(1) by (simp add: encodeAll_def)
  have rv: "ReadValue vb = Inr (v, ?vb')"
    using ReadValue_encoded [OF B Cons.prems(2)] Cons.prems(3) by simp
  have B2: "Buffer ?vb' = (pre @ encodeValue v) @ encodeAll vs @ rest"
    using B by simp
  have r2: "ReadIndex ?vb' = int (length (pre @ encodeValue v))" by simp
  have "ReadValues (length vs) ?vb'
        = Inr (vs, ?vb'\<lparr>ReadIndex := int (length (pre @ encodeValue v)) + int (length (encodeAll vs))\<rparr>)"
    using Cons.IH [OF B2 r2] Cons.prems(3) by simp
  then show ?case
    using rv by (simp add: encodeAll_def)
qed

lemma uint16At_low16:
  "uint16At (of_nat (n mod 65536 mod 256)) (of_nat (n mod 65536 div 256)) = int (n mod 65536)"
  using uint16At_encode [of "n mod 65536"] by simp

lemma ReadValue_low16:
  assumes B: "Buffer vb = pre @ encodeValue v @ rest"
    and r: "ReadIndex vb = int (length pre)"
  shows "ReadValue vb = Inr (take (length v mod 65536) v,
           vb\<lparr>ReadIndex := int (length pre) + 2 + int (length v mod 65536)\<rparr>)"
proof -
  define m where "m = length v mod 65536"
  define b0 :: byte where "b0 = of_nat (length v mod 65536 mod 256)"
  define b1 :: byte where "b1 = of_nat (length v mod 65536 div 256)"
  have B': "Buffer vb = pre @ b0 # b1 # v @ rest"
    using B by (simp add: encodeValue_def b0_def b1_def)
  have u: "uint16At b0 b1 = int m"
    using uint16At_low16 [of "length v"] by (simp add: b0_def b1_def m_def)
  have m: "m \<le> length v" by (simp add: m_def)
  have n2: "nat (int (length pre) + 2) = length pre + 2"
    "nat (int (length pre) + 2 + int m) = length pre + 2 + m" by simp_all
  show ?thesis
    using u m unfolding m_def [symmetric]
    by (simp add: ReadValue_def r B' sizeOfUint16_def Let_def nth_append n2 copy_go_def make_bytes_def)
qed

lemma Bytes_eq: "writeInv vb \<Longrightarrow> Bytes vb = Inr (take (nat (WriteIndex vb)) (Buffer vb))"
  by (auto simp: Bytes_def writeInv_def)

lemma Buffer_split:
  assumes "take w B = xs"
  shows "B = [] @ xs @ drop w B"
  using assms by (metis append_Nil append_take_drop_id)

lemma encodeAll_append: "encodeAll (xs @ ys) = encodeAll xs @ encodeAll ys"
  by (simp add: encodeAll_def)

text \<open>
  Claim C1. Take any sequence of byte strings, each at most 65535 bytes long (empty
  ones included). Writing them one after the other into a fresh buffer with
  \<open>WriteValue\<close> never panics, and as many calls of \<open>ReadValue\<close> on the result never
  panic and return the same byte strings in the same order. A zero-length value
  comes back as the nil slice, which is the empty list of the model.
\<close>

theorem codec_roundtrip:
  assumes "\<forall>v\<in>set vs. length v \<le> 65535"
  shows "\<exists>vb vb'. WriteValues emptyValues vs = Inr vb \<and> ReadValues (length vs) vb = Inr (vs, vb')"
proof -
  from WriteValues_ok [OF writeInv_empty, of vs] obtain vb where
    w: "WriteValues emptyValues vs = Inr vb"
    and r: "ReadIndex vb = 0"
    and t: "take (nat (WriteIndex vb)) (Buffer vb) = encodeAll vs"
    by (auto simp: emptyValues_def)
  have B: "Buffer vb = [] @ encodeAll vs @ drop (nat (WriteIndex vb)) (Buffer vb)"
    using t by (rule Buffer_split)
  have "ReadIndex vb = int (length ([] :: byte list))" using r by simp
  from ReadValues_encoded [OF B this assms] w show ?thesis by blast
qed

theorem codec_roundtrip_witness:
  "list_all (\<lambda>v. length v \<le> 65535) [[1, 2, 3], [], [7 :: byte]] \<and>
   (\<exists>vb vb'. WriteValues emptyValues [[1, 2, 3], [], [7]] = Inr vb
      \<and> ReadValues (length [[1, 2, 3], [], [7 :: byte]]) vb = Inr ([[1, 2, 3], [], [7]], vb'))"
proof -
  let ?vs = "[[1, 2, 3], [], [7 :: byte]]"
  have h: "\<forall>v\<in>set ?vs. length v \<le> 65535" by simp
  have "list_all (\<lambda>v. length v \<le> 65535) ?vs" by simp
  with codec_roundtrip [OF h] show ?thesis by blast
qed

text \<open>
  Claim C4. After any sequence of \<open>WriteValue\<close> calls on a fresh buffer, \<open>Bytes\<close>
  returns the concatenation, in order, of the encoded values (2-byte length prefix,
  then the payload). Earlier bytes survive later writes and the growth they cause:
  for every k, the bytes that \<open>Bytes\<close> returned after the first k writes are still
  the first bytes of the final buffer.
\<close>

theorem Bytes_concat:
  "\<exists>vb. WriteValues emptyValues vs = Inr vb \<and> Bytes vb = Inr (encodeAll vs) \<and>
     (\<forall>k\<le>length vs. \<exists>vbk. WriteValues emptyValues (take k vs) = Inr vbk \<and>
         Bytes vbk = Inr (take (nat (WriteIndex vbk)) (Buffer vb)))"
proof -
  from WriteValues_ok [OF writeInv_empty, of vs] obtain vb where
    w: "WriteValues emptyValues vs = Inr vb" and inv: "writeInv vb"
    and wi: "WriteIndex vb = int (length (encodeAll vs))"
    and t: "take (nat (WriteIndex vb)) (Buffer vb) = encodeAll vs"
    by (auto simp: emptyValues_def)
  have "\<exists>vbk. WriteValues emptyValues (take k vs) = Inr vbk \<and>
         Bytes vbk = Inr (take (nat (WriteIndex vbk)) (Buffer vb))" for k
  proof -
    from WriteValues_ok [OF writeInv_empty, of "take k vs"] obtain vbk where
      wk: "WriteValues emptyValues (take k vs) = Inr vbk" and invk: "writeInv vbk"
      and wik: "WriteIndex vbk = int (length (encodeAll (take k vs)))"
      and tk: "take (nat (WriteIndex vbk)) (Buffer vbk) = encodeAll (take k vs)"
      by (auto simp: emptyValues_def)
    have "encodeAll vs = encodeAll (take k vs) @ encodeAll (drop k vs)"
      by (simp flip: encodeAll_append)
    then have "take (nat (WriteIndex vbk)) (encodeAll vs) = encodeAll (take k vs)"
      using wik by simp
    moreover have "take (nat (WriteIndex vbk)) (encodeAll vs) = take (nat (WriteIndex vbk)) (Buffer vb)"
    proof -
      have "nat (WriteIndex vbk) \<le> nat (WriteIndex vb)"
        using wik wi \<open>encodeAll vs = encodeAll (take k vs) @ encodeAll (drop k vs)\<close> by simp
      then show ?thesis
        by (metis t take_take min.absorb1)
    qed
    ultimately show ?thesis
      using wk tk Bytes_eq [OF invk] by auto
  qed
  then show ?thesis
    using w t Bytes_eq [OF inv] by auto
qed

theorem Bytes_concat_witness:
  "(1::nat) \<le> length [[1, 2, 3], [], [7 :: byte]] \<and>
   (\<exists>vb. WriteValues emptyValues [[1, 2, 3], [], [7]] = Inr vb \<and>
     Bytes vb = Inr [3, 0, 1, 2, 3, 0, 0, 1, 0, 7] \<and>
     (\<exists>vbk. WriteValues emptyValues (take 1 [[1, 2, 3], [], [7]]) = Inr vbk \<and>
         Bytes vbk = Inr (take (nat (WriteIndex vbk)) (Buffer vb))))"
proof -
  let ?vs = "[[1, 2, 3], [], [7 :: byte]]"
  from Bytes_concat [of ?vs] obtain vb where
    a: "WriteValues emptyValues ?vs = Inr vb" and b: "Bytes vb = Inr (encodeAll ?vs)"
    and c: "\<forall>k\<le>length ?vs. \<exists>vbk. WriteValues emptyValues (take k ?vs) = Inr vbk \<and>
         Bytes vbk = Inr (take (nat (WriteIndex vbk)) (Buffer vb))"
    by blast
  have k: "(1::nat) \<le> length ?vs" by simp
  have e: "encodeAll ?vs = [3, 0, 1, 2, 3, 0, 0, 1, 0, 7]"
    by (simp add: encodeAll_def encodeValue_def)
  from c k have "\<exists>vbk. WriteValues emptyValues (take 1 ?vs) = Inr vbk \<and>
         Bytes vbk = Inr (take (nat (WriteIndex vbk)) (Buffer vb))"
    by blast
  with a b k show ?thesis unfolding e by blast
qed

lemma length_written:
  assumes inv: "writeInv vb"
  shows "length (Buffer (written vb v)) = length (Buffer (growIfRequired vb (2 + int (length v))))"
proof -
  define w where "w = nat (WriteIndex vb)"
  have w: "WriteIndex vb = int w" using inv by (simp add: w_def writeInv_def)
  have "w + 2 + length v \<le> length (Buffer (growIfRequired vb (2 + int (length v))))"
    using growIfRequired_props(3) [OF inv, of "2 + int (length v)"] w by simp
  then show ?thesis
    by (simp add: written_def Let_def w)
qed

text \<open>
  Claim C6. On a buffer whose write cursor lies inside the storage, \<open>WriteValue\<close>
  succeeds, and the storage is replaced exactly when the room left,
  \<open>len(Buffer) - WriteIndex\<close>, is smaller than the \<open>2 + len(v)\<close> bytes required: then
  the new length is \<open>2 * (len(Buffer) + 1) + required\<close>; otherwise \<open>growIfRequired\<close>
  returns the buffer as it is and the length is unchanged. In both cases the room
  left after \<open>growIfRequired\<close> is enough for the write.
\<close>

theorem WriteValue_growth:
  assumes "writeInv vb"
  shows "\<exists>vb'. WriteValue vb v = Inr vb' \<and>
     (if int (length (Buffer vb)) - WriteIndex vb < 2 + int (length v)
      then int (length (Buffer vb')) = 2 * (int (length (Buffer vb)) + 1) + (2 + int (length v))
      else growIfRequired vb (2 + int (length v)) = vb \<and> length (Buffer vb') = length (Buffer vb)) \<and>
     2 + int (length v)
       \<le> int (length (Buffer (growIfRequired vb (2 + int (length v))))) - WriteIndex vb"
proof -
  have "length (Buffer (written vb v)) = length (Buffer (growIfRequired vb (2 + int (length v))))"
    using assms by (rule length_written)
  moreover have "2 + int (length v)
       \<le> int (length (Buffer (growIfRequired vb (2 + int (length v))))) - WriteIndex vb"
    using growIfRequired_props(3) [OF assms, of "2 + int (length v)"] by simp
  ultimately show ?thesis
    using WriteValue_eq [OF assms, of v]
    by (simp add: growIfRequired_def)
qed

theorem WriteValue_growth_witness:
  "writeInv emptyValues \<and>
   (\<exists>vb'. WriteValue emptyValues [1, 2, 3] = Inr vb' \<and> length (Buffer vb') = 7)"
  using WriteValue_growth [of emptyValues "[1, 2, 3]"] writeInv_empty
  by (auto simp: emptyValues_def)

lemma codecInv_cursors:
  assumes "codecInv vb vs k"
  shows "ReadIndex vb \<le> WriteIndex vb" "WriteIndex vb \<le> int (length (Buffer vb))"
proof -
  have "encodeAll vs = encodeAll (take k vs) @ encodeAll (drop k vs)"
    by (simp flip: encodeAll_append)
  then have "length (encodeAll (take k vs)) \<le> length (encodeAll vs)"
    by (metis le_add1 length_append)
  then show "ReadIndex vb \<le> WriteIndex vb"
    using assms by (simp add: codecInv_def)
  show "WriteIndex vb \<le> int (length (Buffer vb))"
    using assms by (simp add: codecInv_def writeInv_def)
qed

lemma codecInv_Write:
  assumes "codecInv vb vs k" "length v \<le> 65535"
  shows "WriteValue vb v = Inr (written vb v)" "codecInv (written vb v) (vs @ [v]) k"
proof -
  have inv: "writeInv vb" using assms(1) by (simp add: codecInv_def)
  show "WriteValue vb v = Inr (written vb v)" using inv by (rule WriteValue_eq)
  note p = written_props [OF inv, of v]
  have wi: "WriteIndex vb = int (length (encodeAll vs))"
    and tk: "take (length (encodeAll vs)) (Buffer vb) = encodeAll vs"
    and k: "k \<le> length vs"
    using assms(1) by (simp_all add: codecInv_def)
  have wi': "WriteIndex (written vb v) = int (length (encodeAll (vs @ [v])))"
    using p(2) wi by (simp add: encodeAll_def)
  have "take (nat (WriteIndex (written vb v))) (Buffer (written vb v)) = encodeAll (vs @ [v])"
    using p(4) tk by (simp add: wi encodeAll_def)
  then have tk': "take (length (encodeAll (vs @ [v]))) (Buffer (written vb v)) = encodeAll (vs @ [v])"
    by (simp only: wi' nat_int)
  show "codecInv (written vb v) (vs @ [v]) k"
    using assms p(1,3) wi' tk' k by (simp add: codecInv_def)
qed

lemma codecInv_Read:
  assumes "codecInv vb vs k" "k < length vs"
  shows "ReadValue vb = Inr (vs ! k, vb\<lparr>ReadIndex := int (length (encodeAll (take (Suc k) vs)))\<rparr>)"
    and "codecInv (vb\<lparr>ReadIndex := int (length (encodeAll (take (Suc k) vs)))\<rparr>) vs (Suc k)"
proof -
  have t: "take (Suc k) vs = take k vs @ [vs ! k]"
    using assms(2) by (rule take_Suc_conv_app_nth)
  have "vs = take k vs @ vs ! k # drop (Suc k) vs"
    using assms(2) by (rule id_take_nth_drop)
  then have "encodeAll vs = encodeAll (take k vs) @ encodeValue (vs ! k) @ encodeAll (drop (Suc k) vs)"
    by (metis (no_types) append_Cons append_Nil concat.simps(2) concat_append encodeAll_def list.simps(9) map_append)
  moreover have "Buffer vb = [] @ encodeAll vs @ drop (nat (WriteIndex vb)) (Buffer vb)"
    using assms(1) by (intro Buffer_split) (simp add: codecInv_def)
  ultimately have B: "Buffer vb = encodeAll (take k vs) @ encodeValue (vs ! k)
      @ (encodeAll (drop (Suc k) vs) @ drop (nat (WriteIndex vb)) (Buffer vb))"
    by simp
  have r: "ReadIndex vb = int (length (encodeAll (take k vs)))"
    using assms(1) by (simp add: codecInv_def)
  have s: "length (vs ! k) \<le> 65535"
    using assms by (simp add: codecInv_def list_all_length)
  have e: "int (length (encodeAll (take k vs))) + 2 + int (length (vs ! k))
           = int (length (encodeAll (take (Suc k) vs)))"
    unfolding t by (simp add: encodeAll_def)
  show "ReadValue vb = Inr (vs ! k, vb\<lparr>ReadIndex := int (length (encodeAll (take (Suc k) vs)))\<rparr>)"
    using ReadValue_encoded [OF B r s] unfolding e .
  show "codecInv (vb\<lparr>ReadIndex := int (length (encodeAll (take (Suc k) vs)))\<rparr>) vs (Suc k)"
    using assms by (simp add: codecInv_def writeInv_def)
qed

lemma runOps_inv:
  assumes "codecInv vb vs k" "wellFormed (length vs - k) ops"
  shows "\<exists>vb' vs' k'. runOps vb ops = Inr vb' \<and> codecInv vb' vs' k'"
  using assms
proof (induction ops arbitrary: vb vs k)
  case Nil
  then show ?case by auto
next
  case (Cons op ops)
  show ?case
  proof (cases op)
    case (Write v)
    have le: "k \<le> length vs" using Cons.prems(1) by (simp add: codecInv_def)
    have small: "length v \<le> 65535" and wf: "wellFormed (Suc (length vs - k)) ops"
      using Cons.prems(2) Write by simp_all
    have "Suc (length vs - k) = length (vs @ [v]) - k" using le by simp
    with wf have wf': "wellFormed (length (vs @ [v]) - k) ops" by simp
    from Cons.IH [OF codecInv_Write(2) [OF Cons.prems(1) small] wf']
    show ?thesis
      by (simp add: Write codecInv_Write(1) [OF Cons.prems(1) small])
  next
    case Read
    have lt: "k < length vs" and wf: "wellFormed (length vs - k - 1) ops"
      using Cons.prems(2) Read by simp_all
    have "length vs - k - 1 = length vs - Suc k" by simp
    with wf have wf': "wellFormed (length vs - Suc k) ops" by simp
    from Cons.IH [OF codecInv_Read(2) [OF Cons.prems(1) lt] wf']
    show ?thesis
      by (simp add: Read codecInv_Read(1) [OF Cons.prems(1) lt])
  qed
qed

lemma codecInv_empty: "codecInv emptyValues [] 0"
  by (simp add: codecInv_def emptyValues_def writeInv_def encodeAll_def)

lemma wellFormed_take: "wellFormed n ops \<Longrightarrow> wellFormed n (take j ops)"
proof (induction n ops arbitrary: j rule: wellFormed.induct)
  case (1 unread)
  then show ?case by simp
next
  case (2 unread v ops)
  then show ?case by (cases j) simp_all
next
  case (3 unread ops)
  then show ?case by (cases j) simp_all
qed

lemma length_bigValue: "length bigValue = 65536"
  by (simp add: bigValue_def)

lemma ReadValue_at:
  assumes B: "Buffer vb = pre @ b0 # b1 # rest"
    and r: "ReadIndex vb = int (length pre)"
    and u: "uint16At b0 b1 = int n"
    and n: "n \<le> length rest"
  shows "ReadValue vb = Inr (take n rest, vb\<lparr>ReadIndex := int (length pre) + 2 + int n\<rparr>)"
proof -
  have n2: "nat (int (length pre) + 2) = length pre + 2"
    "nat (int (length pre) + 2 + int n) = length pre + 2 + n" by simp_all
  show ?thesis
    using u n
    by (simp add: ReadValue_def r B sizeOfUint16_def Let_def nth_append n2 copy_go_def make_bytes_def)
qed

lemma replicate_2: "replicate 2 x = [x, x]"
  by (simp add: numeral_2_eq_2)

lemma write1:
  "WriteValue emptyValues bigValue
     = Inr \<lparr>Buffer = [0, 0] @ bigValue @ [0, 0], WriteIndex = 65538, ReadIndex = 0\<rparr>"
proof -
  have "written emptyValues bigValue
      = \<lparr>Buffer = [0, 0] @ bigValue @ [0, 0], WriteIndex = 65538, ReadIndex = 0\<rparr>"
    by (simp add: written_def growIfRequired_def emptyValues_def copy_go_def make_bytes_def
        encodeValue_def Let_def length_bigValue replicate_2)
  then show ?thesis using WriteValue_eq [OF writeInv_empty, of bigValue] by simp
qed

lemma write2:
  "WriteValue \<lparr>Buffer = [0, 0] @ bigValue @ [0, 0], WriteIndex = 65538, ReadIndex = 0\<rparr> []
     = Inr \<lparr>Buffer = [0, 0] @ bigValue @ [0, 0], WriteIndex = 65540, ReadIndex = 0\<rparr>"
proof -
  let ?vb = "\<lparr>Buffer = [0, 0] @ bigValue @ [0, 0], WriteIndex = 65538, ReadIndex = 0\<rparr>"
  have inv: "writeInv ?vb" by (simp add: writeInv_def length_bigValue)
  have "written ?vb []
      = \<lparr>Buffer = [0, 0] @ bigValue @ [0, 0], WriteIndex = 65540, ReadIndex = 0\<rparr>"
    by (simp add: written_def growIfRequired_def encodeValue_def Let_def length_bigValue)
  then show ?thesis using WriteValue_eq [OF inv, of "[]"] by simp
qed

lemma write3:
  "WriteValue \<lparr>Buffer = [0, 0] @ bigValue @ [0, 0], WriteIndex = 65540, ReadIndex = 0\<rparr>
       (replicate 255 0)
     = Inr \<lparr>Buffer = [0, 0] @ bigValue @ [0, 0] @ [255, 0] @ replicate 255 0 @ replicate 65542 0,
            WriteIndex = 65797, ReadIndex = 0\<rparr>"
proof -
  let ?vb = "\<lparr>Buffer = [0, 0] @ bigValue @ [0, 0], WriteIndex = 65540, ReadIndex = 0\<rparr>"
  have inv: "writeInv ?vb" by (simp add: writeInv_def length_bigValue)
  have "written ?vb (replicate 255 0)
      = \<lparr>Buffer = [0, 0] @ bigValue @ [0, 0] @ [255, 0] @ replicate 255 0 @ replicate 65542 0,
          WriteIndex = 65797, ReadIndex = 0\<rparr>"
    by (simp add: written_def growIfRequired_def encodeValue_def Let_def length_bigValue
        copy_go_def make_bytes_def)
  then show ?thesis using WriteValue_eq [OF inv, of "replicate 255 0"] by simp
qed


lemma read1:
  "ReadValue \<lparr>Buffer = [0, 0] @ bigValue @ [0, 0] @ [255, 0] @ replicate 255 0 @ replicate 65542 0,
            WriteIndex = 65797, ReadIndex = 0\<rparr>
     = Inr ([], \<lparr>Buffer = [0, 0] @ bigValue @ [0, 0] @ [255, 0] @ replicate 255 0 @ replicate 65542 0,
            WriteIndex = 65797, ReadIndex = 2\<rparr>)"
  using ReadValue_at [of _ "[]" 0 0 _ 0]
  by (simp add: uint16At_def)

lemma read2:
  "ReadValue \<lparr>Buffer = [0, 0] @ bigValue @ [0, 0] @ [255, 0] @ replicate 255 0 @ replicate 65542 0,
            WriteIndex = 65797, ReadIndex = 2\<rparr>
     = Inr (replicate 65534 0 @ [0],
            \<lparr>Buffer = [0, 0] @ bigValue @ [0, 0] @ [255, 0] @ replicate 255 0 @ replicate 65542 0,
            WriteIndex = 65797, ReadIndex = 65539\<rparr>)"
proof -
  let ?B = "[0, 0] @ bigValue @ [0, 0] @ [255, 0] @ replicate 255 0 @ replicate 65542 (0 :: byte)"
  let ?rest = "replicate 65534 0 @ [0, 0] @ [255, 0] @ replicate 255 0 @ replicate 65542 (0 :: byte)"
  have B: "Buffer \<lparr>Buffer = ?B, WriteIndex = 65797, ReadIndex = 2\<rparr> = [0, 0] @ 255 # 255 # ?rest"
    by (simp add: bigValue_def)
  have r: "ReadIndex \<lparr>Buffer = ?B, WriteIndex = 65797, ReadIndex = 2\<rparr> = int (length [0, 0 :: byte])"
    by simp
  have u: "uint16At 255 255 = int 65535" by (simp add: uint16At_def)
  have n: "65535 \<le> length ?rest" by simp
  have t: "take 65535 ?rest = replicate 65534 0 @ [0]" by simp
  show ?thesis
    using ReadValue_at [OF B r u n] unfolding t by simp
qed

lemma read3:
  "ReadValue \<lparr>Buffer = [0, 0] @ bigValue @ [0, 0] @ [255, 0] @ replicate 255 0 @ replicate 65542 0,
            WriteIndex = 65797, ReadIndex = 65539\<rparr>
     = Inr (replicate 65280 0,
            \<lparr>Buffer = [0, 0] @ bigValue @ [0, 0] @ [255, 0] @ replicate 255 0 @ replicate 65542 0,
            WriteIndex = 65797, ReadIndex = 130821\<rparr>)"
proof -
  let ?B = "[0, 0] @ bigValue @ [0, 0] @ [255, 0] @ replicate 255 0 @ replicate 65542 (0 :: byte)"
  let ?pre = "[0, 0] @ bigValue @ [0 :: byte]"
  let ?rest = "0 # replicate 255 0 @ replicate 65542 (0 :: byte)"
  have B: "Buffer \<lparr>Buffer = ?B, WriteIndex = 65797, ReadIndex = 65539\<rparr> = ?pre @ 0 # 255 # ?rest"
    by simp
  have r: "ReadIndex \<lparr>Buffer = ?B, WriteIndex = 65797, ReadIndex = 65539\<rparr> = int (length ?pre)"
    by (simp add: length_bigValue)
  have u: "uint16At 0 255 = int 65280" by (simp add: uint16At_def)
  have n: "65280 \<le> length ?rest" by simp
  have "?rest = replicate 65798 0"
    by (simp add: replicate_add [symmetric] flip: replicate_Suc)
  then have t: "take 65280 ?rest = replicate 65280 0" by simp
  show ?thesis
    using ReadValue_at [OF B r u n] unfolding t by (simp add: length_bigValue)
qed

lemma wellFormed_iff:
  "wellFormed n ops \<longleftrightarrow>
     readsFollowWrites n ops \<and>
     list_all (\<lambda>op. case op of Write v \<Rightarrow> length v \<le> 65535 | Read \<Rightarrow> True) ops"
  by (induction n ops rule: wellFormed.induct) auto

text \<open>
  Claim C7, as stated, fails in its second part: that reads never outnumber the
  writes before them is not enough. Write a value of 65536 bytes that begins with
  255, 255, then the empty value, then 255 zero bytes, and read three times. The
  first prefix holds 0, so the first read returns nothing and the second read takes
  the first two bytes of the payload for a length of 65535; the third read then
  starts one byte early and decodes 65280. Nothing panics, and the run ends with
  \<open>ReadIndex = 130821\<close> above \<open>WriteIndex = 65797\<close>.
\<close>

theorem oversized_value_misaligns_reads:
  "readsFollowWrites 0
     [Write ([255, 255] @ replicate 65534 0), Write [], Write (replicate 255 0), Read, Read, Read] \<and>
   runOps emptyValues
     [Write ([255, 255] @ replicate 65534 0), Write [], Write (replicate 255 0), Read, Read, Read]
     = Inr \<lparr>Buffer = [0, 0] @ ([255, 255] @ replicate 65534 0) @ [0, 0] @ [255, 0]
                       @ replicate 255 0 @ replicate 65542 0,
            WriteIndex = 65797, ReadIndex = 130821\<rparr> \<and>
   \<not> (130821 :: int) \<le> 65797"
proof -
  have "runOps emptyValues [Write bigValue, Write [], Write (replicate 255 0), Read, Read, Read]
     = Inr \<lparr>Buffer = [0, 0] @ bigValue @ [0, 0] @ [255, 0] @ replicate 255 0 @ replicate 65542 0,
            WriteIndex = 65797, ReadIndex = 130821\<rparr>"
    by (simp only: runOps.simps write1 write2 write3 read1 read2 read3 sum.case prod.case)
  then show ?thesis
    unfolding bigValue_def by simp
qed

text \<open>
  Claim C7, amended. After any sequence of \<open>WriteValue\<close> calls on a fresh buffer,
  \<open>WriteIndex \<le> len(Buffer)\<close>. And for writes and reads in any order on a fresh
  buffer, as long as the stream is well formed, which is: every value written is at
  most 65535 bytes long, and no more reads are made than writes before them; after
  every operation, so after every \<open>ReadValue\<close>, nothing has panicked and
  \<open>ReadIndex \<le> WriteIndex \<le> len(Buffer)\<close>.
\<close>

theorem cursor_invariants:
  "(\<exists>vb. WriteValues emptyValues vs = Inr vb \<and> WriteIndex vb \<le> int (length (Buffer vb))) \<and>
   (wellFormed 0 ops \<longrightarrow>
      (\<forall>j. \<exists>vb. runOps emptyValues (take j ops) = Inr vb \<and>
             ReadIndex vb \<le> WriteIndex vb \<and> WriteIndex vb \<le> int (length (Buffer vb))))"
proof (intro conjI impI allI)
  from WriteValues_ok [OF writeInv_empty, of vs]
  show "\<exists>vb. WriteValues emptyValues vs = Inr vb \<and> WriteIndex vb \<le> int (length (Buffer vb))"
    by (auto simp: writeInv_def)
next
  fix j
  assume "wellFormed 0 ops"
  then have "wellFormed (length ([] :: byte list list) - 0) (take j ops)"
    by (simp add: wellFormed_take)
  from runOps_inv [OF codecInv_empty this]
  show "\<exists>vb. runOps emptyValues (take j ops) = Inr vb \<and>
             ReadIndex vb \<le> WriteIndex vb \<and> WriteIndex vb \<le> int (length (Buffer vb))"
    using codecInv_cursors by blast
qed

theorem cursor_invariants_witness:
  "wellFormed 0 [Write [1, 2, 3], Read, Write [], Write [7], Read] \<and>
   (\<exists>vb. runOps emptyValues (take 4 [Write [1, 2, 3], Read, Write [], Write [7], Read]) = Inr vb \<and>
          ReadIndex vb \<le> WriteIndex vb \<and> WriteIndex vb \<le> int (length (Buffer vb)))"
proof -
  let ?ops = "[Write [1, 2, 3], Read, Write [], Write [7], Read]"
  have h: "wellFormed 0 ?ops" by simp
  from cursor_invariants [of "[]" ?ops] h show ?thesis by blast
qed

text \<open>
  Claim C10. For a value of 65536 bytes or more, \<open>WriteValue\<close> does not fail: it
  appends a 2-byte prefix that holds the length modulo 2^16, followed by the whole
  payload. The next \<open>ReadValue\<close> (the read cursor standing where this value was
  written) decodes that reduced length: it returns only the first
  \<open>len(v) mod 2^16\<close> bytes, a value whose length differs from \<open>len(v)\<close>, without
  any error.
\<close>

theorem oversized_length_wraps:
  assumes "writeInv vb" and "ReadIndex vb = WriteIndex vb" and "65536 \<le> length v"
  shows "\<exists>vb' vb''. WriteValue vb v = Inr vb' \<and>
     Bytes vb' = Inr (take (nat (WriteIndex vb)) (Buffer vb)
                      @ [of_nat (length v mod 65536 mod 256), of_nat (length v mod 65536 div 256)]
                      @ v) \<and>
     uint16At (of_nat (length v mod 65536 mod 256)) (of_nat (length v mod 65536 div 256))
       = int (length v) mod 2 ^ 16 \<and>
     ReadValue vb' = Inr (take (length v mod 65536) v, vb'') \<and>
     length (take (length v mod 65536) v) \<noteq> length v"
proof -
  note p = written_props [OF assms(1), of v]
  have bytes: "Bytes (written vb v) = Inr (take (nat (WriteIndex vb)) (Buffer vb) @ encodeValue v)"
    using Bytes_eq [OF p(1)] p(4) by simp
  define pre where "pre = take (nat (WriteIndex vb)) (Buffer vb)"
  have lp: "int (length pre) = WriteIndex vb"
    using assms(1) by (auto simp: pre_def writeInv_def min_def)
  have B: "Buffer (written vb v) = pre @ encodeValue v
             @ drop (nat (WriteIndex (written vb v))) (Buffer (written vb v))"
    using p(4) unfolding pre_def [symmetric]
    by (metis append_assoc append_take_drop_id)
  have r: "ReadIndex (written vb v) = int (length pre)"
    using p(3) assms(2) lp by simp
  have ne: "length (take (length v mod 65536) v) \<noteq> length v"
    using assms(3) by (simp add: min_def) 
  have u: "uint16At (of_nat (length v mod 65536 mod 256)) (of_nat (length v mod 65536 div 256))
       = int (length v) mod 2 ^ 16"
    by (simp add: uint16At_low16 zmod_int)
  show ?thesis
    using WriteValue_eq [OF assms(1), of v] bytes ReadValue_low16 [OF B r] ne u
    by (simp add: encodeValue_def)
qed

theorem oversized_length_wraps_witness:
  "writeInv emptyValues \<and> ReadIndex emptyValues = WriteIndex emptyValues \<and>
   65536 \<le> length (replicate 65537 (5 :: byte)) \<and>
   (\<exists>vb' vb''. WriteValue emptyValues (replicate 65537 5) = Inr vb' \<and>
      ReadValue vb' = Inr ([5], vb''))"
proof -
  let ?v = "replicate 65537 (5 :: byte)"
  have a: "writeInv emptyValues" by (rule writeInv_empty)
  have b: "ReadIndex emptyValues = WriteIndex emptyValues" by (simp add: emptyValues_def)
  have c: "65536 \<le> length ?v" by simp
  have m: "length ?v mod 65536 = 1" by simp
  have "replicate 65537 (5 :: byte) = 5 # replicate 65536 5"
    by (metis replicate_Suc eval_nat_numeral(3) numeral_plus_one semiring_norm(5) Suc_numeral)
  then have t: "take (length ?v mod 65536) ?v = [5]" unfolding m by simp
  from oversized_length_wraps [OF a b c] a b c show ?thesis
    unfolding t by blast
qed

section \<open>Properties of the exporter\<close>

lemma perform_logger [simp]: "logger (perform t fx w) = logger w"
  by (induction t fx w rule: perform.induct) auto

lemma perform_clock [simp]: "clock (perform t fx w) = clock w"
  by (induction t fx w rule: perform.induct) auto

lemma quiet_eq: "nat (sint (5 * Second)) = quietWindow"
  by (simp add: Second_def quietWindow_def)

lemma step_Drop_inv:
  assumes "loggerInv w" "step w (Drop t) = Some w'"
  shows "loggerInv w'"
  using assms quiet_eq
  by (auto simp: loggerInv_def overflowLogger_log_def overflowLogger_delay_def
      sorted_wrt_append list_all_iff
      split: if_splits list.splits; force)

lemma step_Fire_inv:
  assumes "loggerInv w" "step w (TimerFires t) = Some w'"
  shows "loggerInv w'"
  using assms quiet_eq
  by (auto simp: loggerInv_def overflowLogger_delay_callback_def overflowLogger_delay_def
      sorted_wrt_append list_all_iff
      split: if_splits list.splits option.splits; force)

lemma sint_of_nat_small:
  assumes "n < 2 ^ 63"
  shows "sint (of_nat n :: 64 word) = int n"
proof -
  have "sint (word_of_int (int n) :: 64 word) = signed_take_bit (LENGTH(64) - 1) (int n)"
    by (rule sint_sbintrunc')
  then have "sint (of_nat n :: 64 word) = signed_take_bit 63 (int n)"
    by simp
  moreover have "signed_take_bit 63 (int n) = int n"
  proof (rule signed_take_bit_int_eq_self)
    show "- (2 ^ 63) \<le> int n" by (rule order_trans [of _ 0]) simp_all
    have "int n < int (2 ^ 63)" using assms by (simp only: of_nat_less_iff)
    then show "int n < 2 ^ 63" by simp
  qed
  ultimately show ?thesis by simp
qed


lemma run_inv:
  assumes "loggerInv w" "run w evs = Some w'"
  shows "loggerInv w'"
  using assms
proof (induction evs arbitrary: w)
  case Nil
  then show ?case by simp
next
  case (Cons ev evs)
  then obtain w1 where s: "step w ev = Some w1" and r: "run w1 evs = Some w'"
    by (auto split: option.splits)
  have "loggerInv w1"
    using Cons.prems(1) s by (cases ev) (auto intro: step_Drop_inv step_Fire_inv)
  then show ?case using r by (rule Cons.IH)
qed

lemma loggerInv_env0: "loggerInv env0"
  by (simp add: loggerInv_def env0_def)

text \<open>
  Claim C2. In every run of the overflow logger, whatever the order of the drops and
  of the timer firings and however many drops there are, any two log lines are at
  least one quiet window (5 seconds) apart: no window holds more than one line. And
  a drop that arrives while the logger is paused only adds one to \<open>accum\<close>: it
  changes nothing else and has no effect, so it logs nothing.
\<close>

theorem overflow_log_rate:
  "(run env0 evs = Some w \<longrightarrow>
      sorted_wrt (\<lambda>t u. t + quietWindow \<le> u) (map fst (logged w))) \<and>
   (pause ol \<longrightarrow> overflowLogger_log ol = (ol\<lparr>accum := accum ol + 1\<rparr>, []))"
proof
  show "run env0 evs = Some w \<longrightarrow>
      sorted_wrt (\<lambda>t u. t + quietWindow \<le> u) (map fst (logged w))"
    using run_inv [OF loggerInv_env0, of evs w] by (simp add: loggerInv_def)
  show "pause ol \<longrightarrow> overflowLogger_log ol = (ol\<lparr>accum := accum ol + 1\<rparr>, [])"
    by (simp add: overflowLogger_log_def)
qed

lemma showInt_2: "showInt 2 = ''2''"
  by (simp add: showInt_def)

theorem overflow_log_rate_witness:
  "run env0 [Drop 10, Drop 11, Drop 12, TimerFires 5000000010, Drop 5000000011,
             TimerFires 10000000010]
     = Some \<lparr>logger = \<lparr>pause = True, accum = 0\<rparr>, clock = 10000000010,
             armed = [15000000010],
             logged =
               [(10, ''OpenCensus Stackdriver exporter: failed to upload span: buffer full''),
                (5000000010, ''OpenCensus Stackdriver exporter: failed to upload 2 spans: buffer full''),
                (10000000010, ''OpenCensus Stackdriver exporter: failed to upload span: buffer full'')]\<rparr> \<and>
   sorted_wrt (\<lambda>t u. t + quietWindow \<le> u) [10, 5000000010, 10000000010] \<and>
   overflowLogger_log \<lparr>pause = True, accum = 3\<rparr> = (\<lparr>pause = True, accum = 4\<rparr>, [])"
proof -
  let ?evs = "[Drop 10, Drop 11, Drop 12, TimerFires 5000000010, Drop 5000000011,
             TimerFires 10000000010]"
  let ?w = "\<lparr>logger = \<lparr>pause = True, accum = 0\<rparr>, clock = 10000000010,
             armed = [15000000010],
             logged =
               [(10, ''OpenCensus Stackdriver exporter: failed to upload span: buffer full''),
                (5000000010, ''OpenCensus Stackdriver exporter: failed to upload 2 spans: buffer full''),
                (10000000010, ''OpenCensus Stackdriver exporter: failed to upload span: buffer full'')]\<rparr>"
  have r: "run env0 ?evs = Some ?w"
    by (simp add: env0_def overflowLogger_log_def overflowLogger_delay_def
        overflowLogger_delay_callback_def Second_def showInt_2)
  have p: "pause \<lparr>pause = True, accum = 3\<rparr>" by simp
  from overflow_log_rate [of ?evs ?w "\<lparr>pause = True, accum = 3\<rparr>"] r p
  show ?thesis by simp
qed

text \<open>
  Claim C5, as stated, fails on the text of the summary message. With two
  accumulated drops the callback logs
  \<open>OpenCensus Stackdriver exporter: failed to upload 2 spans: buffer full\<close>;
  the line \<open>dropped 2 spans: buffer full\<close> is not logged, and the line that is
  logged does not end with it.
\<close>

theorem summary_message_text:
  "overflowLogger_delay_callback \<lparr>pause = True, accum = 2\<rparr>
     = (\<lparr>pause = True, accum = 0\<rparr>,
        [Log ''OpenCensus Stackdriver exporter: failed to upload 2 spans: buffer full'',
         AfterFunc (5 * Second)]) \<and>
   Log ''dropped 2 spans: buffer full''
     \<notin> set (snd (overflowLogger_delay_callback \<lparr>pause = True, accum = 2\<rparr>)) \<and>
   \<not> suffix ''dropped 2 spans: buffer full''
       ''OpenCensus Stackdriver exporter: failed to upload 2 spans: buffer full''"
  by (simp add: overflowLogger_delay_callback_def overflowLogger_delay_def showInt_2
      suffix_to_prefix)

text \<open>
  Claim C5, amended. When the timer fires with \<open>accum = 1\<close>, the callback logs the
  single-drop message, resets the counter and arms the timer again, staying paused;
  the next firing, with no drop in between, logs nothing and leaves the logger idle.
  When the timer fires with \<open>accum > 1\<close>, the callback logs the summary
  \<open>OpenCensus Stackdriver exporter: failed to upload N spans: buffer full\<close>, N
  the accumulated count in decimal, resets the counter to 0 and arms the timer again,
  staying paused.
\<close>

theorem timer_callback_steps:
  "(accum ol = 1 \<longrightarrow>
      overflowLogger_delay_callback ol
        = (\<lparr>pause = True, accum = 0\<rparr>,
           [Log ''OpenCensus Stackdriver exporter: failed to upload span: buffer full'',
            AfterFunc (5 * Second)]) \<and>
      overflowLogger_delay_callback (fst (overflowLogger_delay_callback ol))
        = (\<lparr>pause = False, accum = 0\<rparr>, [])) \<and>
   (1 < accum ol \<longrightarrow>
      overflowLogger_delay_callback ol
        = (\<lparr>pause = True, accum = 0\<rparr>,
           [Log (''OpenCensus Stackdriver exporter: failed to upload '' @ showInt (accum ol)
                 @ '' spans: buffer full''),
            AfterFunc (5 * Second)]))"
  by (simp add: overflowLogger_delay_callback_def overflowLogger_delay_def)

theorem timer_callback_steps_witness:
  "overflowLogger_delay_callback \<lparr>pause = True, accum = 1\<rparr>
     = (\<lparr>pause = True, accum = 0\<rparr>,
        [Log ''OpenCensus Stackdriver exporter: failed to upload span: buffer full'',
         AfterFunc (5 * Second)]) \<and>
   overflowLogger_delay_callback \<lparr>pause = True, accum = 0\<rparr> = (\<lparr>pause = False, accum = 0\<rparr>, []) \<and>
   overflowLogger_delay_callback \<lparr>pause = True, accum = 2\<rparr>
     = (\<lparr>pause = True, accum = 0\<rparr>,
        [Log ''OpenCensus Stackdriver exporter: failed to upload 2 spans: buffer full'',
         AfterFunc (5 * Second)])"
proof -
  let ?cb = overflowLogger_delay_callback
  let ?one = "\<lparr>pause = True, accum = 1\<rparr>"
  have h: "accum ?one = 1" by simp
  from timer_callback_steps [of ?one] h
  have a: "?cb ?one
     = (\<lparr>pause = True, accum = 0\<rparr>,
        [Log ''OpenCensus Stackdriver exporter: failed to upload span: buffer full'',
         AfterFunc (5 * Second)])"
    and b: "?cb (fst (?cb ?one)) = (\<lparr>pause = False, accum = 0\<rparr>, [])"
    by blast+
  have c: "?cb \<lparr>pause = True, accum = 0\<rparr> = (\<lparr>pause = False, accum = 0\<rparr>, [])"
    using b unfolding a by simp
  have h2: "1 < accum \<lparr>pause = True, accum = 2\<rparr>" by simp
  from timer_callback_steps [of "\<lparr>pause = True, accum = 2\<rparr>"] h2
  have d: "?cb \<lparr>pause = True, accum = 2\<rparr>
     = (\<lparr>pause = True, accum = 0\<rparr>,
        [Log ''OpenCensus Stackdriver exporter: failed to upload 2 spans: buffer full'',
         AfterFunc (5 * Second)])"
    by (simp add: showInt_2)
  from a c d show ?thesis by blast
qed





lemma Export_n:
  "Export add e s =
     (case add (bundler e) s (of_nat (weight s)) of
        (None, b) \<Rightarrow> (e\<lparr>bundler := b\<rparr>, [])
      | (Some ErrOversizedItem, b) \<Rightarrow> (e\<lparr>bundler := b\<rparr>, [Go_uploadFn [s]])
      | (Some ErrOverflow, b) \<Rightarrow>
          (e\<lparr>bundler := b, overflowLogger := fst (overflowLogger_log (overflowLogger e))\<rparr>,
           snd (overflowLogger_log (overflowLogger e)))
      | (Some (ErrOther msg), b) \<Rightarrow>
          (e\<lparr>bundler := b\<rparr>,
           [Log (''OpenCensus Stackdriver exporter: failed to upload span: '' @ msg)]))"
proof -
  have w: "1 + go_len (Attributes s) + go_len (Annotations s) + go_len (MessageEvents s)
             + go_len (StackTrace s) = (of_nat (weight s) :: go_int)"
    by (simp add: go_len_def weight_def)
  show ?thesis
    unfolding Export_def Let_def w
    by (auto split: prod.splits option.splits addError.splits)
qed

text \<open>
  Claim C3. \<open>Export\<close> returns no error in any case (its result has no error
  component). With the bundler of the specification: a record whose weight exceeds
  the hard per-batch limit is handed alone to \<open>go uploadFn\<close>, and the exporter,
  with its pending records, is unchanged; a record that would take the buffered
  weight over the ceiling is not stored and not uploaded, the bundler is unchanged,
  and the exporter does exactly what \<open>overflowLogger.log\<close> does. Whenever \<open>Add\<close>
  returns any other error, the only effect is one diagnostic line.
\<close>

theorem Export_outcomes:
  "(sint (BundleByteLimit (bundler e)) < sint (of_nat (weight s) :: go_int) \<longrightarrow>
      Export bundlerAdd e s = (e, [Go_uploadFn [s]])) \<and>
   (\<not> sint (BundleByteLimit (bundler e)) < sint (of_nat (weight s) :: go_int) \<and>
    sint (BufferedByteLimit (bundler e))
      < sint (bufferedSize (bundler e)) + sint (of_nat (weight s) :: go_int) \<longrightarrow>
      Export bundlerAdd e s
        = (e\<lparr>overflowLogger := fst (overflowLogger_log (overflowLogger e))\<rparr>,
           snd (overflowLogger_log (overflowLogger e))) \<and>
      bundler (fst (Export bundlerAdd e s)) = bundler e \<and>
      (\<forall>spans. Go_uploadFn spans \<notin> set (snd (Export bundlerAdd e s)))) \<and>
   (add (bundler e) s (of_nat (weight s)) = (Some (ErrOther msg), b) \<longrightarrow>
      Export add e s
        = (e\<lparr>bundler := b\<rparr>,
           [Log (''OpenCensus Stackdriver exporter: failed to upload span: '' @ msg)]))"
proof (intro conjI impI)
  assume "sint (BundleByteLimit (bundler e)) < sint (of_nat (weight s) :: go_int)"
  then show "Export bundlerAdd e s = (e, [Go_uploadFn [s]])"
    by (simp add: Export_n bundlerAdd_def)
next
  assume a: "\<not> sint (BundleByteLimit (bundler e)) < sint (of_nat (weight s) :: go_int) \<and>
    sint (BufferedByteLimit (bundler e))
      < sint (bufferedSize (bundler e)) + sint (of_nat (weight s) :: go_int)"
  then show x: "Export bundlerAdd e s
        = (e\<lparr>overflowLogger := fst (overflowLogger_log (overflowLogger e))\<rparr>,
           snd (overflowLogger_log (overflowLogger e)))"
    by (simp add: Export_n bundlerAdd_def)
  show "bundler (fst (Export bundlerAdd e s)) = bundler e"
    by (simp add: x)
  show "\<forall>spans. Go_uploadFn spans \<notin> set (snd (Export bundlerAdd e s))"
    by (simp add: x overflowLogger_log_def overflowLogger_delay_def)
next
  assume "add (bundler e) s (of_nat (weight s)) = (Some (ErrOther msg), b)"
  then show "Export add e s
        = (e\<lparr>bundler := b\<rparr>,
           [Log (''OpenCensus Stackdriver exporter: failed to upload span: '' @ msg)])"
    by (simp add: Export_n)
qed

lemma weight_exampleSpan: "weight (exampleSpan anns) = Suc (length anns)"
  by (simp add: weight_def exampleSpan_def)

theorem Export_outcomes_witness:
  "Export bundlerAdd exampleExporter (exampleSpan [''a'', ''b'', ''c'', ''d'', ''e'', ''f''])
     = (exampleExporter, [Go_uploadFn [exampleSpan [''a'', ''b'', ''c'', ''d'', ''e'', ''f'']]]) \<and>
   Export bundlerAdd exampleExporter (exampleSpan [''a''])
     = (exampleExporter\<lparr>overflowLogger := \<lparr>pause = True, accum = 0\<rparr>\<rparr>,
        [Log ''OpenCensus Stackdriver exporter: failed to upload span: buffer full'',
         AfterFunc (5 * Second)]) \<and>
   Export (\<lambda>b item n. (Some (ErrOther ''closed''), b)) exampleExporter (exampleSpan [])
     = (exampleExporter,
        [Log ''OpenCensus Stackdriver exporter: failed to upload span: closed''])"
proof -
  let ?e = exampleExporter
  have l: "sint (BundleByteLimit (bundler ?e)) = 5" "sint (BufferedByteLimit (bundler ?e)) = 10"
    "sint (bufferedSize (bundler ?e)) = 9"
    by (simp_all add: exampleExporter_def)
  note w = weight_exampleSpan
  have 1: "Export bundlerAdd ?e (exampleSpan [''a'', ''b'', ''c'', ''d'', ''e'', ''f'']) = (?e, [Go_uploadFn [exampleSpan [''a'', ''b'', ''c'', ''d'', ''e'', ''f'']]])"
    using Export_outcomes [of ?e "exampleSpan [''a'', ''b'', ''c'', ''d'', ''e'', ''f'']"] by (simp add: l w)
  have "Export bundlerAdd ?e (exampleSpan [''a''])
        = (?e\<lparr>overflowLogger := fst (overflowLogger_log (overflowLogger ?e))\<rparr>,
           snd (overflowLogger_log (overflowLogger ?e)))"
    using Export_outcomes [of ?e "exampleSpan [''a'']"] by (simp add: l w)
  then have 2: "Export bundlerAdd ?e (exampleSpan [''a''])
     = (?e\<lparr>overflowLogger := \<lparr>pause = True, accum = 0\<rparr>\<rparr>,
        [Log ''OpenCensus Stackdriver exporter: failed to upload span: buffer full'',
         AfterFunc (5 * Second)])"
    by (simp add: exampleExporter_def overflowLogger_log_def overflowLogger_delay_def)
  have 3: "Export (\<lambda>b item n. (Some (ErrOther ''closed''), b)) ?e (exampleSpan [])
     = (?e, [Log ''OpenCensus Stackdriver exporter: failed to upload span: closed''])"
    using Export_outcomes [of ?e "exampleSpan []" "\<lambda>b item n. (Some (ErrOther ''closed''), b)"
        "''closed''" "bundler ?e"]
    by simp
  from 1 2 3 show ?thesis by blast
qed

text \<open>
  Claim C9. For every span record, \<open>Export\<close> calls \<open>Add\<close> once, on its bundler, with
  the record and the weight 1 + len(Attributes) + len(Annotations) +
  len(MessageEvents) + len(StackTrace): replacing \<open>Add\<close> by the function that
  returns what \<open>Add\<close> returns for these three arguments changes nothing, and the
  exporter's bundler afterwards is the one which that call returns. The \<open>int\<close>
  handed over is this sum exactly whenever the sum fits an \<open>int\<close>.
\<close>

theorem Export_weight:
  "Export add e s = Export (\<lambda>b item n. add (bundler e) s (of_nat (weight s))) e s \<and>
   bundler (fst (Export add e s)) = snd (add (bundler e) s (of_nat (weight s))) \<and>
   (weight s < 2 ^ 63 \<longrightarrow> sint (of_nat (weight s) :: go_int) = int (weight s))"
proof (intro conjI impI)
  show "Export add e s = Export (\<lambda>b item n. add (bundler e) s (of_nat (weight s))) e s"
    by (simp add: Export_n)
  show "bundler (fst (Export add e s)) = snd (add (bundler e) s (of_nat (weight s)))"
    by (simp add: Export_n split: prod.splits option.splits addError.splits)
  show "sint (of_nat (weight s) :: go_int) = int (weight s)" if "weight s < 2 ^ 63"
    using that by (rule sint_of_nat_small)
qed

theorem Export_weight_witness:
  "weight (exampleSpan [''a'']) = 2 \<and>
   sint (of_nat (weight (exampleSpan [''a''])) :: go_int) = 2 \<and>
   bundler (fst (Export bundlerAdd
            (exampleExporter\<lparr>bundler := (bundler exampleExporter)\<lparr>bufferedSize := 0\<rparr>\<rparr>)
            (exampleSpan [''a''])))
     = (bundler exampleExporter)\<lparr>items := [(exampleSpan [''a''], 2)], bufferedSize := 2\<rparr>"
proof -
  let ?e = "exampleExporter\<lparr>bundler := (bundler exampleExporter)\<lparr>bufferedSize := 0\<rparr>\<rparr>"
  let ?s = "exampleSpan [''a'']"
  have w: "weight ?s = 2" by (simp add: weight_exampleSpan)
  have h1: "weight ?s < 2 ^ 63" unfolding w by simp
  from Export_weight [of bundlerAdd ?e ?s]
  have A: "weight ?s < 2 ^ 63 \<longrightarrow> sint (of_nat (weight ?s) :: go_int) = int (weight ?s)"
    and B: "bundler (fst (Export bundlerAdd ?e ?s))
              = snd (bundlerAdd (bundler ?e) ?s (of_nat (weight ?s)))"
    by blast+
  from A h1 have "sint (of_nat (weight ?s) :: go_int) = int (weight ?s)" by blast
  then have a: "sint (of_nat (weight ?s) :: go_int) = 2" by (simp add: w)
  have b: "bundler (fst (Export bundlerAdd ?e ?s))
     = (bundler exampleExporter)\<lparr>items := [(?s, 2)], bufferedSize := 2\<rparr>"
    unfolding B by (simp add: w bundlerAdd_def exampleExporter_def)
  from w a b show ?thesis by blast
qed


end
